theory Spec2Isabelle
  imports Main "HOL-Library.Multiset"
begin

section \<open>Python primitives used by the auction code\<close>

text \<open>
  Every \<^verbatim>\<open>raise\<close> of the modelled code, and every exception of a Python builtin the code
  can trigger, is a value of \<open>error\<close>.  The first six are Python \<^verbatim>\<open>ValueError\<close>s,
  told apart by where they are raised:
  \<^item> \<open>BidOutOfRange\<close>: "Bid value ... exceeds safe range ..." (\<^verbatim>\<open>User.create_commitment\<close>);
  \<^item> \<open>CommitmentNotCreated\<close>: "Commitment not created yet" (\<^verbatim>\<open>User.encrypt_commitment\<close>);
  \<^item> \<open>MissingInputs\<close>: "Final winners or random values not set"
    (\<^verbatim>\<open>PBCVerifier.compute_vector_commitment\<close>);
  \<^item> \<open>PowZeroModulus\<close>: "pow() 3rd argument cannot be 0";
  \<^item> \<open>NotInvertible\<close>: "base is not invertible for the given modulus";
  \<^item> \<open>NoPrimeInRange\<close>: \<^verbatim>\<open>randprime\<close> found no prime in its range.
\<close>

datatype error =
    BidOutOfRange int int
  | CommitmentNotCreated
  | MissingInputs
  | PowZeroModulus
  | NotInvertible
  | NoPrimeInRange
  | IndexError
  | ZeroDivisionError

subsection \<open>Three-argument \<^verbatim>\<open>pow\<close>\<close>

text \<open>
  The extended Euclidean algorithm: \<open>egcd a b = (g, x, y)\<close> with \<open>a * x + b * y = g\<close>.
  Python's \<^verbatim>\<open>pow(a, -1, m)\<close> inverts \<open>a\<close> modulo \<open>m\<close> with it.
\<close>

function egcd :: "int \<Rightarrow> int \<Rightarrow> int \<times> int \<times> int" where
  "egcd a b =
     (if b = 0 then (a, 1, 0)
      else (case egcd b (a mod b) of (g, x, y) \<Rightarrow> (g, y, x - (a div b) * y)))"
  by pat_completeness auto
termination
  by (relation "measure (\<lambda>(a, b). nat \<bar>b\<bar>)") (auto simp: abs_mod_less)

declare egcd.simps [simp del]

text \<open>The inverse of \<open>a\<close> modulo \<open>m\<close> (for \<open>0 < m\<close>) in \<open>{0..<m}\<close>, when there is one.\<close>

definition mod_inverse :: "int \<Rightarrow> int \<Rightarrow> int option" where
  "mod_inverse a m =
     (case egcd (a mod m) m of (g, x, y) \<Rightarrow> if g = 1 then Some (x mod m) else None)"

text \<open>
  \<^verbatim>\<open>pow(b, e, m)\<close> on Python integers: a zero modulus is a \<^verbatim>\<open>ValueError\<close>; a negative
  exponent first replaces the base by its inverse modulo \<open>\<bar>m\<bar>\<close> (a \<^verbatim>\<open>ValueError\<close> when
  there is none); the result has the sign of the modulus, as \<open>mod\<close> on \<open>int\<close> has.
\<close>

definition pow3 :: "int \<Rightarrow> int \<Rightarrow> int \<Rightarrow> error + int" where
  "pow3 b e m =
     (if m = 0 then Inl PowZeroModulus
      else if 0 \<le> e then Inr (b ^ nat e mod m)
      else (case mod_inverse b \<bar>m\<bar> of
              None \<Rightarrow> Inl NotInvertible
            | Some i \<Rightarrow> Inr (i ^ nat (- e) mod m)))"

text \<open>Square-and-multiply, the way the power is evaluated on concrete numbers.\<close>

function modexp :: "int \<Rightarrow> nat \<Rightarrow> int \<Rightarrow> int" where
  "modexp b e m =
     (if e = 0 then 1 mod m
      else if even e then modexp (b * b mod m) (e div 2) m
      else b * modexp (b * b mod m) (e div 2) m mod m)"
  by pat_completeness auto
termination
  by (relation "measure (\<lambda>(b, e, m). e)") auto

declare modexp.simps [simp del]

section \<open>Keys, encryption, decryption (\<^verbatim>\<open>propose_auction.py\<close>)\<close>

type_synonym key = "int \<times> int"

definition encrypt :: "int \<Rightarrow> key \<Rightarrow> error + int" where
  "encrypt m pubkey = (case pubkey of (e, n) \<Rightarrow> pow3 m e n)"

definition decrypt :: "int \<Rightarrow> key \<Rightarrow> error + int" where
  "decrypt c privkey = (case privkey of (d, n) \<Rightarrow> pow3 c d n)"

definition vc_keygen :: "int \<Rightarrow> int \<Rightarrow> int" where
  "vc_keygen k q = 2"

subsection \<open>Key generation\<close>

text \<open>
  \<^verbatim>\<open>sympy.randprime(a, b)\<close> is not code of this repository; it is modelled by its
  contract: it returns a random prime of \<open>[a, b)\<close>, any of them, and raises a
  \<^verbatim>\<open>ValueError\<close> when the range holds none.  The random choice is the argument \<open>r\<close>.
\<close>

definition is_prime :: "nat \<Rightarrow> bool" where
  "is_prime n = (1 < n \<and> (\<forall>d \<in> {2..<n}. \<not> d dvd n))"

definition primes_in :: "nat \<Rightarrow> nat \<Rightarrow> nat list" where
  "primes_in a b = filter is_prime [a..<b]"

definition randprime :: "nat \<Rightarrow> nat \<Rightarrow> nat \<Rightarrow> error + nat" where
  "randprime a b r =
     (case primes_in a b of
        [] \<Rightarrow> Inl NoPrimeInRange
      | x # xs \<Rightarrow> Inr ((x # xs) ! (r mod length (x # xs))))"

text \<open>
  Trial division up to the square root, the way primality is evaluated on concrete
  numbers: no \<open>d' \<ge> d\<close> with \<open>d' * d' \<le> n\<close> divides \<open>n\<close>.
\<close>

function no_divisor_from :: "nat \<Rightarrow> nat \<Rightarrow> bool" where
  "no_divisor_from d n =
     (if n < d * d then True
      else if d dvd n then False
      else no_divisor_from (Suc d) n)"
  by pat_completeness auto
termination
proof (relation "measure (\<lambda>(d, n). Suc n - d)")
  fix d n :: nat
  assume "\<not> n < d * d"
  moreover have "d \<le> d * d" by (cases d) simp_all
  ultimately have "d \<le> n" by linarith
  then show "((Suc d, n), (d, n)) \<in> measure (\<lambda>(d, n). Suc n - d)" by simp
qed simp

declare no_divisor_from.simps [simp del]


text \<open>
  The two \<^verbatim>\<open>while\<close> statements of \<^verbatim>\<open>generate_keys\<close>.  Neither has a bound, so each is a
  partial function: \<open>None\<close> is a loop that never ends.  \<open>rnd\<close> is the random source and
  \<open>i\<close> the number of draws made so far; the result carries the number of draws after
  the loop.
\<close>

partial_function (option) distinct_prime_loop ::
  "(nat \<Rightarrow> nat) \<Rightarrow> nat \<Rightarrow> nat \<Rightarrow> nat \<Rightarrow> nat \<Rightarrow> nat \<Rightarrow> ((error + nat) \<times> nat) option" where
  "distinct_prime_loop rnd i lower upper p q =
     (if q = p then
        (case randprime lower upper (rnd i) of
           Inl err \<Rightarrow> Some (Inl err, Suc i)
         | Inr q' \<Rightarrow> distinct_prime_loop rnd (Suc i) lower upper p q')
      else Some (Inr q, i))"

partial_function (option) coprime_exponent_loop ::
  "(nat \<Rightarrow> nat) \<Rightarrow> nat \<Rightarrow> nat \<Rightarrow> nat \<Rightarrow> ((error + nat) \<times> nat) option" where
  "coprime_exponent_loop rnd i phi e =
     (if phi mod e = 0 then
        (case randprime 3 1000 (rnd i) of
           Inl err \<Rightarrow> Some (Inl err, Suc i)
         | Inr e' \<Rightarrow> coprime_exponent_loop rnd (Suc i) phi e')
      else Some (Inr e, i))"

text \<open>
  \<^verbatim>\<open>generate_keys(bit_length=16)\<close>, for \<open>bit_length \<ge> 2\<close> (below that the exponent
  \<^verbatim>\<open>bit_length // 2 - 1\<close> is negative and Python's \<^verbatim>\<open>2 ** ...\<close> is a float).  The result
  is \<open>None\<close> when a loop never ends, an error when \<^verbatim>\<open>randprime\<close> or \<^verbatim>\<open>pow\<close> raises, and
  the key pair \<open>((e, n), (d, n))\<close> otherwise.
\<close>

definition generate_keys :: "nat \<Rightarrow> (nat \<Rightarrow> nat) \<Rightarrow> (error + key \<times> key) option" where
  "generate_keys bit_length rnd =
     (let lower = 2 ^ (bit_length div 2 - 1);
          upper = 2 ^ (bit_length div 2) - 1
      in case randprime lower upper (rnd 0) of
           Inl err \<Rightarrow> Some (Inl err)
         | Inr p \<Rightarrow>
             (case distinct_prime_loop rnd 1 lower upper p p of
                None \<Rightarrow> None
              | Some (Inl err, i) \<Rightarrow> Some (Inl err)
              | Some (Inr q, i) \<Rightarrow>
                  (let n = p * q;
                       phi = (p - 1) * (q - 1)
                   in case coprime_exponent_loop rnd i phi 65537 of
                        None \<Rightarrow> None
                      | Some (Inl err, j) \<Rightarrow> Some (Inl err)
                      | Some (Inr e, j) \<Rightarrow>
                          (case pow3 (int e) (- 1) (int phi) of
                             Inl err \<Rightarrow> Some (Inl err)
                           | Inr d \<Rightarrow> Some (Inr ((int e, int n), (d, int n)))))))"

text \<open>
  \<^verbatim>\<open>verify_commitment_ordering(g, modulus, max_bid=1000)\<close>, without its printing: the
  commitments of the sample bids up to \<open>max_bid\<close>, and whether they ascend strictly.
\<close>

fun commitments_of ::
  "int \<Rightarrow> int \<Rightarrow> int \<Rightarrow> int list \<Rightarrow> (int \<times> int) list \<Rightarrow> error + (int \<times> int) list" where
  "commitments_of g modulus max_bid [] commitments = Inr commitments"
| "commitments_of g modulus max_bid (bid # rest) commitments =
     (if bid \<le> max_bid then
        (case pow3 g bid modulus of
           Inl err \<Rightarrow> Inl err
         | Inr c \<Rightarrow> commitments_of g modulus max_bid rest (commitments @ [(bid, c)]))
      else commitments_of g modulus max_bid rest commitments)"

fun is_monotonic :: "(int \<times> int) list \<Rightarrow> bool" where
  "is_monotonic (a # b # rest) = (snd a < snd b \<and> is_monotonic (b # rest))"
| "is_monotonic _ = True"

definition verify_commitment_ordering :: "int \<Rightarrow> int \<Rightarrow> int \<Rightarrow> error + bool" where
  "verify_commitment_ordering g modulus max_bid =
     (case commitments_of g modulus max_bid [50, 100, 150, 200, 250, 300] [] of
        Inl err \<Rightarrow> Inl err
      | Inr commitments \<Rightarrow> Inr (is_monotonic commitments))"

section \<open>User\<close>

record User =
  user_id :: string
  bid_value :: int
  commitment :: "int option"
  encrypted_commitment :: "int option"

definition User_init :: "string \<Rightarrow> int \<Rightarrow> User" where
  "User_init uid bid =
     \<lparr>user_id = uid, bid_value = bid, commitment = None, encrypted_commitment = None\<rparr>"

definition max_safe_bid :: int where
  "max_safe_bid = 1000"

text \<open>
  \<^verbatim>\<open>create_commitment(self, g, modulus=None)\<close>: the result and the user afterwards.
  An omitted modulus is \<open>None\<close>.
\<close>

definition create_commitment :: "User \<Rightarrow> int \<Rightarrow> int option \<Rightarrow> (error + int) \<times> User" where
  "create_commitment self g modulus =
     (let modulus' = (case modulus of None \<Rightarrow> 2 ^ 31 - 1 | Some m \<Rightarrow> m) in
      if bid_value self > max_safe_bid
      then (Inl (BidOutOfRange (bid_value self) max_safe_bid), self)
      else (case pow3 g (bid_value self) modulus' of
              Inl err \<Rightarrow> (Inl err, self)
            | Inr c \<Rightarrow> (Inr c, self\<lparr>commitment := Some c\<rparr>)))"

definition encrypt_commitment :: "User \<Rightarrow> key \<Rightarrow> (error + int) \<times> User" where
  "encrypt_commitment self pubkey =
     (case commitment self of
        None \<Rightarrow> (Inl CommitmentNotCreated, self)
      | Some c \<Rightarrow>
          (case encrypt c pubkey of
             Inl err \<Rightarrow> (Inl err, self)
           | Inr x \<Rightarrow> (Inr x, self\<lparr>encrypted_commitment := Some x\<rparr>)))"

section \<open>Sorting and slicing\<close>

text \<open>
  \<^verbatim>\<open>sorted(xs, key=key, reverse=True)\<close>.  Python's sort is stable, and with
  \<^verbatim>\<open>reverse=True\<close> elements with equal keys still keep their original order.  The
  model is a stable insertion sort: an element goes in front of the first element whose
  key is not larger than its own.
\<close>

fun insort_desc :: "('a \<Rightarrow> int) \<Rightarrow> 'a \<Rightarrow> 'a list \<Rightarrow> 'a list" where
  "insort_desc key x [] = [x]"
| "insort_desc key x (y # ys) =
     (if key y \<le> key x then x # y # ys else y # insort_desc key x ys)"

definition sorted_desc :: "('a \<Rightarrow> int) \<Rightarrow> 'a list \<Rightarrow> 'a list" where
  "sorted_desc key xs = foldr (insort_desc key) xs []"

text \<open>The slice \<^verbatim>\<open>xs[:M]\<close>; a negative \<open>M\<close> counts from the end.\<close>

definition slice_to :: "int \<Rightarrow> 'a list \<Rightarrow> 'a list" where
  "slice_to M xs =
     (if 0 \<le> M then take (nat M) xs else take (nat (int (length xs) + M)) xs)"

section \<open>The verifiers (\<^verbatim>\<open>propose_auction.py\<close>)\<close>

text \<open>
  \<^verbatim>\<open>User\<close> objects are shared and mutable: a verifier's roster and its
  \<^verbatim>\<open>(user, value)\<close> pairs hold references to them.  A reference is an address, and the
  objects live in a heap.
\<close>

type_synonym uref = nat
type_synonym heap = "uref \<Rightarrow> User"

text \<open>Both verifier classes have the fields \<^verbatim>\<open>pubkey\<close> and \<^verbatim>\<open>privkey\<close>.\<close>

record Verifier =
  pubkey :: key
  privkey :: key

subsection \<open>CBCVerifier\<close>

record CBCVerifier = Verifier +
  cbc_id :: string
  users :: "uref list"
  decrypted_commitments :: "(uref \<times> int) list"
  top_M_winners :: "(uref \<times> int) list"

definition register_user :: "CBCVerifier \<Rightarrow> uref \<Rightarrow> CBCVerifier" where
  "register_user self user = self\<lparr>users := users self @ [user]\<rparr>"

fun decrypt_commitments_loop ::
  "heap \<Rightarrow> uref list \<Rightarrow> CBCVerifier \<Rightarrow> (error + unit) \<times> CBCVerifier" where
  "decrypt_commitments_loop h [] self = (Inr (), self)"
| "decrypt_commitments_loop h (user # rest) self =
     (case encrypted_commitment (h user) of
        None \<Rightarrow> decrypt_commitments_loop h rest self
      | Some c \<Rightarrow>
          (case decrypt c (privkey self) of
             Inl err \<Rightarrow> (Inl err, self)
           | Inr decrypted \<Rightarrow>
               decrypt_commitments_loop h rest
                 (self\<lparr>decrypted_commitments :=
                    decrypted_commitments self @ [(user, decrypted)]\<rparr>)))"

definition decrypt_commitments ::
  "heap \<Rightarrow> CBCVerifier \<Rightarrow> (error + (uref \<times> int) list) \<times> CBCVerifier" where
  "decrypt_commitments h self =
     (case decrypt_commitments_loop h (users self) (self\<lparr>decrypted_commitments := []\<rparr>) of
        (Inl err, self') \<Rightarrow> (Inl err, self')
      | (Inr _, self') \<Rightarrow> (Inr (decrypted_commitments self'), self'))"

definition select_top_M :: "CBCVerifier \<Rightarrow> int \<Rightarrow> (uref \<times> int) list \<times> CBCVerifier" where
  "select_top_M self M =
     (let sorted_commitments = sorted_desc snd (decrypted_commitments self);
          self' = self\<lparr>top_M_winners := slice_to M sorted_commitments\<rparr>
      in (top_M_winners self', self'))"

fun encrypt_winners_loop ::
  "key \<Rightarrow> (uref \<times> int) list \<Rightarrow> (uref \<times> int) list \<Rightarrow> error + (uref \<times> int) list" where
  "encrypt_winners_loop pbc_pubkey [] encrypted_winners = Inr encrypted_winners"
| "encrypt_winners_loop pbc_pubkey ((user, value) # rest) encrypted_winners =
     (case encrypt value pbc_pubkey of
        Inl err \<Rightarrow> Inl err
      | Inr encrypted \<Rightarrow>
          encrypt_winners_loop pbc_pubkey rest (encrypted_winners @ [(user, encrypted)]))"

definition encrypt_winners_for_pbc ::
  "CBCVerifier \<Rightarrow> key \<Rightarrow> (error + (uref \<times> int) list) \<times> CBCVerifier" where
  "encrypt_winners_for_pbc self pbc_pubkey =
     (encrypt_winners_loop pbc_pubkey (top_M_winners self) [], self)"

text \<open>
  The states a \<^verbatim>\<open>CBCVerifier\<close> object goes through: the constructor (with whatever keys
  \<^verbatim>\<open>generate_keys\<close> returned), then any sequence of its methods.
\<close>

inductive cbc_reachable :: "CBCVerifier \<Rightarrow> bool" where
  init: "cbc_reachable \<lparr>pubkey = pk, privkey = sk, cbc_id = name, users = [],
                          decrypted_commitments = [], top_M_winners = []\<rparr>"
| register: "cbc_reachable s \<Longrightarrow> cbc_reachable (register_user s user)"
| decrypted: "cbc_reachable s \<Longrightarrow> cbc_reachable (snd (decrypt_commitments h s))"
| selected: "cbc_reachable s \<Longrightarrow> cbc_reachable (snd (select_top_M s M))"
| forwarded: "cbc_reachable s \<Longrightarrow> cbc_reachable (snd (encrypt_winners_for_pbc s pk))"

subsection \<open>PBCVerifier\<close>

text \<open>
  \<open>random_values\<close> is written by \<^verbatim>\<open>generate_random_values\<close> only, whose entries are
  draws of \<^verbatim>\<open>random.randint(1, 100)\<close>: natural numbers.
\<close>

record PBCVerifier = Verifier +
  all_encrypted_winners :: "(uref \<times> int) list"
  all_decrypted_commitments :: "(uref \<times> int) list"
  final_winners :: "(uref \<times> int) list"
  random_values :: "nat list"
  vector_commitment :: "int option"

definition collect_encrypted_winners :: "PBCVerifier \<Rightarrow> (uref \<times> int) list \<Rightarrow> PBCVerifier" where
  "collect_encrypted_winners self cbc_encrypted_winners =
     self\<lparr>all_encrypted_winners := all_encrypted_winners self @ cbc_encrypted_winners\<rparr>"

fun decrypt_all_commitments_loop ::
  "(uref \<times> int) list \<Rightarrow> PBCVerifier \<Rightarrow> (error + unit) \<times> PBCVerifier" where
  "decrypt_all_commitments_loop [] self = (Inr (), self)"
| "decrypt_all_commitments_loop ((user, ciphertext) # rest) self =
     (case decrypt ciphertext (privkey self) of
        Inl err \<Rightarrow> (Inl err, self)
      | Inr decrypted \<Rightarrow>
          decrypt_all_commitments_loop rest
            (self\<lparr>all_decrypted_commitments :=
               all_decrypted_commitments self @ [(user, decrypted)]\<rparr>))"

definition decrypt_all_commitments ::
  "PBCVerifier \<Rightarrow> (error + (uref \<times> int) list) \<times> PBCVerifier" where
  "decrypt_all_commitments self =
     (case decrypt_all_commitments_loop (all_encrypted_winners self)
             (self\<lparr>all_decrypted_commitments := []\<rparr>) of
        (Inl err, self') \<Rightarrow> (Inl err, self')
      | (Inr _, self') \<Rightarrow> (Inr (all_decrypted_commitments self'), self'))"

definition select_final_winners :: "PBCVerifier \<Rightarrow> int \<Rightarrow> (uref \<times> int) list \<times> PBCVerifier" where
  "select_final_winners self M =
     (let sorted_commitments = sorted_desc snd (all_decrypted_commitments self);
          self' = self\<lparr>final_winners := slice_to M sorted_commitments\<rparr>
      in (final_winners self', self'))"

text \<open>
  \<^verbatim>\<open>generate_random_values\<close>: the \<open>i\<close>-th call of \<^verbatim>\<open>random.randint(1, 100)\<close> is
  \<open>1 + rnd i mod 100\<close> for a random source \<open>rnd\<close>; \<^verbatim>\<open>range(M)\<close> is empty for \<open>M \<le> 0\<close>.
\<close>

definition generate_random_values ::
  "PBCVerifier \<Rightarrow> int \<Rightarrow> (nat \<Rightarrow> nat) \<Rightarrow> nat list \<times> PBCVerifier" where
  "generate_random_values self M rnd =
     (let self' = self\<lparr>random_values := map (\<lambda>i. 1 + rnd i mod 100) [0..<nat M]\<rparr>
      in (random_values self', self'))"

text \<open>
  The loop of \<^verbatim>\<open>compute_vector_commitment\<close> over \<^verbatim>\<open>enumerate(self.final_winners)\<close>,
  from index \<open>i\<close> on.  \<open>vc\<close> is the value of \<^verbatim>\<open>self.vector_commitment\<close>, which every
  round reads and writes back.  An index past the end of \<^verbatim>\<open>self.random_values\<close> is an
  \<^verbatim>\<open>IndexError\<close>, a zero \<open>p\<close> a \<^verbatim>\<open>ZeroDivisionError\<close>; either leaves the object as the
  rounds before have made it.
\<close>

fun compute_vector_commitment_loop ::
  "int \<Rightarrow> nat \<Rightarrow> (uref \<times> int) list \<Rightarrow> int \<Rightarrow> PBCVerifier \<Rightarrow> (error + int) \<times> PBCVerifier" where
  "compute_vector_commitment_loop p i [] vc self = (Inr vc, self)"
| "compute_vector_commitment_loop p i ((user, value) # rest) vc self =
     (if i < length (random_values self) then
        (let r_i = random_values self ! i in
         if p = 0 then (Inl ZeroDivisionError, self)
         else (let vc' = (vc * value ^ r_i) mod p
               in compute_vector_commitment_loop p (Suc i) rest vc'
                    (self\<lparr>vector_commitment := Some vc'\<rparr>)))
      else (Inl IndexError, self))"

definition compute_vector_commitment :: "PBCVerifier \<Rightarrow> int \<Rightarrow> (error + int) \<times> PBCVerifier" where
  "compute_vector_commitment self p =
     (if final_winners self = [] \<or> random_values self = [] then (Inl MissingInputs, self)
      else compute_vector_commitment_loop p 0 (final_winners self) 1
             (self\<lparr>vector_commitment := Some 1\<rparr>))"

section \<open>The plaintext baseline (\<^verbatim>\<open>ordinal_auction.py\<close>)\<close>

text \<open>
  \<open>bidder_id\<close> and \<open>bidder_bid_value\<close> are the fields \<^verbatim>\<open>id\<close> and \<^verbatim>\<open>bid_value\<close> of
  \<^verbatim>\<open>Bidder\<close>; \<open>chain_id\<close> and \<open>child_M\<close> are \<^verbatim>\<open>id\<close> and \<^verbatim>\<open>M\<close> of \<^verbatim>\<open>ChildBlockchain\<close>,
  \<open>parent_M\<close> is \<^verbatim>\<open>M\<close> of \<^verbatim>\<open>ParentBlockchain\<close>.
\<close>

record Bidder =
  bidder_id :: string
  bidder_bid_value :: int

record ChildBlockchain =
  chain_id :: string
  bidders :: "Bidder list"
  child_M :: int
  top_bidders :: "Bidder list"

record ParentBlockchain =
  child_chains :: "ChildBlockchain list"
  parent_M :: int
  all_winners :: "Bidder list"

text \<open>\<^verbatim>\<open>ChildBlockchain.select_top_M\<close>.\<close>

definition child_select_top_M :: "ChildBlockchain \<Rightarrow> Bidder list \<times> ChildBlockchain" where
  "child_select_top_M self =
     (let sorted_bidders = sorted_desc bidder_bid_value (bidders self);
          self' = self\<lparr>top_bidders := slice_to (child_M self) sorted_bidders\<rparr>
      in (top_bidders self', self'))"

text \<open>
  \<^verbatim>\<open>ParentBlockchain.collect_winners\<close>: every child selects (and stores) its winners,
  which are appended to the parent's list.
\<close>

fun collect_winners_loop ::
  "ChildBlockchain list \<Rightarrow> ChildBlockchain list \<Rightarrow> Bidder list
     \<Rightarrow> ChildBlockchain list \<times> Bidder list" where
  "collect_winners_loop [] visited winners_so_far = (visited, winners_so_far)"
| "collect_winners_loop (child # rest) visited winners_so_far =
     (case child_select_top_M child of
        (winners, child') \<Rightarrow>
          collect_winners_loop rest (visited @ [child']) (winners_so_far @ winners))"

definition collect_winners :: "ParentBlockchain \<Rightarrow> ParentBlockchain" where
  "collect_winners self =
     (case collect_winners_loop (child_chains self) [] (all_winners self) of
        (children, winners) \<Rightarrow> self\<lparr>child_chains := children, all_winners := winners\<rparr>)"

definition determine_global_winners :: "ParentBlockchain \<Rightarrow> Bidder list" where
  "determine_global_winners self =
     (let sorted_winners = sorted_desc bidder_bid_value (all_winners self)
      in slice_to (parent_M self) sorted_winners)"

text \<open>
  \<^verbatim>\<open>run_simple_auction\<close> on a given population: the bidders of each child chain are the
  argument, where the source draws them at random.
\<close>

definition run_simple_auction :: "(string \<times> Bidder list) list \<Rightarrow> int \<Rightarrow> Bidder list" where
  "run_simple_auction population M =
     (let child_blockchains =
            map (\<lambda>(name, bs). \<lparr>chain_id = name, bidders = bs, child_M = M, top_bidders = []\<rparr>)
              population;
          parent = \<lparr>child_chains = child_blockchains, parent_M = M, all_winners = []\<rparr>
      in determine_global_winners (collect_winners parent))"

section \<open>The committed protocol end to end (\<^verbatim>\<open>run_auction\<close>)\<close>

text \<open>The constructors, given the key pair that \<^verbatim>\<open>generate_keys()\<close> returned.\<close>

definition CBCVerifier_init :: "string \<Rightarrow> key \<times> key \<Rightarrow> CBCVerifier" where
  "CBCVerifier_init name keys =
     \<lparr>pubkey = fst keys, privkey = snd keys, cbc_id = name, users = [],
      decrypted_commitments = [], top_M_winners = []\<rparr>"

definition PBCVerifier_init :: "key \<times> key \<Rightarrow> PBCVerifier" where
  "PBCVerifier_init keys =
     \<lparr>pubkey = fst keys, privkey = snd keys, all_encrypted_winners = [],
      all_decrypted_commitments = [], final_winners = [], random_values = [],
      vector_commitment = None\<rparr>"

text \<open>
  The bidding phase of one child chain: every user commits (with the default modulus,
  as \<^verbatim>\<open>run_auction\<close> does) and encrypts for the chain's verifier.  The users are objects
  in the heap, which the verifier's roster already refers to.
\<close>

fun bidding_phase :: "int \<Rightarrow> key \<Rightarrow> heap \<Rightarrow> uref list \<Rightarrow> error + heap" where
  "bidding_phase g pk h [] = Inr h"
| "bidding_phase g pk h (user # rest) =
     (case create_commitment (h user) g None of
        (Inl err, _) \<Rightarrow> Inl err
      | (Inr _, committed) \<Rightarrow>
          (case encrypt_commitment committed pk of
             (Inl err, _) \<Rightarrow> Inl err
           | (Inr _, encrypted) \<Rightarrow> bidding_phase g pk (h(user := encrypted)) rest))"

text \<open>
  One round of the loop over the child chains: the users are created at fresh addresses
  and registered, they bid, the verifier decrypts, selects and forwards its winners.
  The state is the heap, the next free address and the parent verifier.
\<close>

definition cbc_round ::
  "int \<Rightarrow> int \<Rightarrow> heap \<times> nat \<times> PBCVerifier \<Rightarrow> string \<times> (key \<times> key) \<times> (string \<times> int) list
     \<Rightarrow> error + heap \<times> nat \<times> PBCVerifier" where
  "cbc_round g M state chain =
     (case (state, chain) of
        ((h, free, pbc), (name, keys, bids)) \<Rightarrow>
          (let refs = [free..<free + length bids];
               h1 = fold (\<lambda>(r, (uid, bid)) hp. hp(r := User_init uid bid)) (zip refs bids) h;
               cbc = foldl register_user (CBCVerifier_init name keys) refs
           in case bidding_phase g (pubkey cbc) h1 refs of
                Inl err \<Rightarrow> Inl err
              | Inr h2 \<Rightarrow>
                  (case decrypt_commitments h2 cbc of
                     (Inl err, _) \<Rightarrow> Inl err
                   | (Inr _, cbc2) \<Rightarrow>
                       (case select_top_M cbc2 M of
                          (_, cbc3) \<Rightarrow>
                            (case encrypt_winners_for_pbc cbc3 (pubkey pbc) of
                               (Inl err, _) \<Rightarrow> Inl err
                             | (Inr encrypted_winners, _) \<Rightarrow>
                                 Inr (h2, free + length bids,
                                      collect_encrypted_winners pbc encrypted_winners))))))"

fun cbc_rounds ::
  "int \<Rightarrow> int \<Rightarrow> heap \<times> nat \<times> PBCVerifier \<Rightarrow> (string \<times> (key \<times> key) \<times> (string \<times> int) list) list
     \<Rightarrow> error + heap \<times> nat \<times> PBCVerifier" where
  "cbc_rounds g M state [] = Inr state"
| "cbc_rounds g M state (chain # rest) =
     (case cbc_round g M state chain of
        Inl err \<Rightarrow> Inl err
      | Inr state' \<Rightarrow> cbc_rounds g M state' rest)"

text \<open>
  \<^verbatim>\<open>run_auction\<close> up to the final winners, on a given population and with the key pairs
  the verifiers' constructors obtained; the winners are returned with the identities
  the source prints for them.
\<close>

definition run_auction ::
  "key \<times> key \<Rightarrow> (string \<times> (key \<times> key) \<times> (string \<times> int) list) list \<Rightarrow> int
     \<Rightarrow> error + (string \<times> int) list" where
  "run_auction pbc_keys population M =
     (let g = vc_keygen 1 100;
          pbc_verifier = PBCVerifier_init pbc_keys
      in case cbc_rounds g M (\<lambda>r. User_init [] 0, 0, pbc_verifier) population of
           Inl err \<Rightarrow> Inl err
         | Inr (h, _, pbc1) \<Rightarrow>
             (case decrypt_all_commitments pbc1 of
                (Inl err, _) \<Rightarrow> Inl err
              | (Inr _, pbc2) \<Rightarrow>
                  (case select_final_winners pbc2 M of
                     (winners, _) \<Rightarrow> Inr (map (\<lambda>(user, value). (user_id (h user), value)) winners))))"

section \<open>Facts about the primitives\<close>

lemma modexp_eq: "modexp b e m = b ^ e mod m"
proof (induction b e m rule: modexp.induct)
  case (1 b e m)
  show ?case
  proof (cases "e = 0")
    case True
    then show ?thesis by (simp add: modexp.simps)
  next
    case False
    have sq: "(b * b mod m) ^ (e div 2) mod m = b ^ (2 * (e div 2)) mod m"
      by (simp add: power_mod power_mult power2_eq_square)
    show ?thesis
    proof (cases "even e")
      case True
      then have "modexp b e m = (b * b mod m) ^ (e div 2) mod m"
        using False 1 by (subst modexp.simps) simp
      also have "\<dots> = b ^ e mod m"
        using True sq by simp
      finally show ?thesis .
    next
      case odd: False
      then have "modexp b e m = b * ((b * b mod m) ^ (e div 2) mod m) mod m"
        using False 1 by (subst modexp.simps) simp
      also have "\<dots> = b * b ^ (2 * (e div 2)) mod m"
        using sq by (metis mod_mult_right_eq)
      also have "\<dots> = b ^ Suc (2 * (e div 2)) mod m"
        by simp
      also have "Suc (2 * (e div 2)) = e"
        using odd by presburger
      finally show ?thesis .
    qed
  qed
qed

lemma pow3_nonneg: "m \<noteq> 0 \<Longrightarrow> 0 \<le> e \<Longrightarrow> pow3 b e m = Inr (b ^ nat e mod m)"
  by (simp add: pow3_def)

lemma pow3_eval: "m \<noteq> 0 \<Longrightarrow> 0 \<le> e \<Longrightarrow> pow3 b e m = Inr (modexp b (nat e) m)"
  by (simp add: pow3_def modexp_eq)

subsection \<open>The vector commitment loop\<close>

lemma cvc_loop_ok:
  "p \<noteq> 0 \<Longrightarrow> i + length ws \<le> length (random_values s) \<Longrightarrow> vector_commitment s = Some vc \<Longrightarrow>
   compute_vector_commitment_loop p i ws vc s =
     (let v = foldl (\<lambda>a ((u, c), r). (a * c ^ r) mod p) vc (zip ws (drop i (random_values s)))
      in (Inr v, s\<lparr>vector_commitment := Some v\<rparr>))"
proof (induction ws arbitrary: i vc s)
  case Nil
  then show ?case by simp
next
  case (Cons w ws)
  obtain u c where w: "w = (u, c)" by (cases w)
  from Cons.prems have i: "i < length (random_values s)" by simp
  then have d: "drop i (random_values s) = random_values s ! i # drop (Suc i) (random_values s)"
    by (simp add: Cons_nth_drop_Suc)
  show ?case
    using Cons.prems i
    by (simp add: w d Let_def Cons.IH)
qed

lemma running_product:
  "zs \<noteq> [] \<Longrightarrow>
   foldl (\<lambda>a ((u, c), r). (a * c ^ r) mod p) acc zs
     = (acc * prod_list (map (\<lambda>((u :: uref, c :: int), r :: nat). c ^ r) zs)) mod (p :: int)"
proof (induction zs arbitrary: acc)
  case Nil
  then show ?case by simp
next
  case (Cons z zs)
  show ?case
  proof (cases zs)
    case Nil
    then show ?thesis by (simp split: prod.splits)
  next
    case (Cons z' zs')
    then have "zs \<noteq> []" by simp
    from Cons.IH [OF this] show ?thesis
      by (simp split: prod.splits add: mod_mult_left_eq mult.assoc)
  qed
qed

lemma cvc_loop_index_fault:
  "p \<noteq> 0 \<Longrightarrow> length (random_values s) < i + length ws \<Longrightarrow> i \<le> length (random_values s) \<Longrightarrow>
   fst (compute_vector_commitment_loop p i ws vc s) = Inl IndexError"
proof (induction ws arbitrary: i vc s)
  case Nil
  then show ?case by simp
next
  case (Cons w ws)
  obtain u c where w: "w = (u, c)" by (cases w)
  show ?case
  proof (cases "i < length (random_values s)")
    case True
    then show ?thesis
      using Cons.prems by (simp add: w Let_def Cons.IH)
  next
    case False
    then show ?thesis by (simp add: w)
  qed
qed

lemma cvc_complete:
  assumes "final_winners s \<noteq> []" and "random_values s \<noteq> []"
    and "length (final_winners s) \<le> length (random_values s)" and "p \<noteq> 0"
  shows "compute_vector_commitment s p =
    (let v = prod_list (map (\<lambda>((u, c), r). c ^ r) (zip (final_winners s) (random_values s))) mod p
     in (Inr v, s\<lparr>vector_commitment := Some v\<rparr>))"
proof -
  have z: "zip (final_winners s) (random_values s) \<noteq> []"
    using assms(1,2) by (cases "final_winners s"; cases "random_values s") simp_all
  show ?thesis
    using assms
    by (simp add: compute_vector_commitment_def cvc_loop_ok running_product [OF z] Let_def)
qed

subsection \<open>Sorting, slicing and the child verifier\<close>

lemma set_insort_desc: "set (insort_desc key x ys) = insert x (set ys)"
  by (induction ys) auto

lemma mset_insort_desc: "mset (insort_desc key x ys) = add_mset x (mset ys)"
  by (induction ys) auto

lemma mset_sorted_desc: "mset (sorted_desc key xs) = mset xs"
  by (induction xs) (simp_all add: sorted_desc_def mset_insort_desc)

lemma length_sorted_desc: "length (sorted_desc key xs) = length xs"
  using mset_sorted_desc [of key xs] by (metis size_mset)

lemma descending_insort_desc:
  "sorted_wrt (\<lambda>a b. key b \<le> key a) ys \<Longrightarrow> sorted_wrt (\<lambda>a b. key b \<le> key a) (insort_desc key x ys)"
  by (induction ys) (auto simp: set_insort_desc)

lemma descending_sorted_desc: "sorted_wrt (\<lambda>a b. key b \<le> key a) (sorted_desc key xs)"
  by (induction xs) (simp_all add: sorted_desc_def descending_insort_desc)

lemma filter_insort_desc:
  "sorted_wrt (\<lambda>a b. key b \<le> key a) ys \<Longrightarrow>
   filter (\<lambda>y. key y = v) (insort_desc key x ys) =
     (if key x = v then x # filter (\<lambda>y. key y = v) ys else filter (\<lambda>y. key y = v) ys)"
proof (induction ys)
  case Nil
  then show ?case by simp
next
  case (Cons y ys)
  show ?case
  proof (cases "key y \<le> key x")
    case True
    then show ?thesis by simp
  next
    case False
    have "\<forall>z \<in> set ys. key z \<le> key y" using Cons.prems by simp
    then have tail: "key x = v \<Longrightarrow> key y = v \<Longrightarrow> False" using False by simp
    from Cons show ?thesis using False by (auto dest: tail)
  qed
qed

lemma stable_sorted_desc:
  "filter (\<lambda>y. key y = v) (sorted_desc key xs) = filter (\<lambda>y. key y = v) xs"
  by (induction xs)
     (simp_all add: sorted_desc_def filter_insort_desc descending_sorted_desc [unfolded sorted_desc_def])

lemma length_slice_to: "0 \<le> M \<Longrightarrow> length (slice_to M xs) = min (nat M) (length xs)"
  by (simp add: slice_to_def)

lemma dc_loop_length:
  "length (decrypted_commitments (snd (decrypt_commitments_loop h us s)))
     \<le> length (decrypted_commitments s) + length us"
proof (induction us arbitrary: s)
  case Nil
  then show ?case by simp
next
  case (Cons u us)
  show ?case
  proof (cases "encrypted_commitment (h u)")
    case None
    then show ?thesis using Cons.IH [of s] by simp
  next
    case (Some c)
    show ?thesis
    proof (cases "decrypt c (privkey s)")
      case (Inl err)
      then show ?thesis using Some by simp
    next
      case (Inr d)
      then show ?thesis
        using Some Cons.IH [of "s\<lparr>decrypted_commitments := decrypted_commitments s @ [(u, d)]\<rparr>"]
        by simp
    qed
  qed
qed

lemma dc_loop_users: "users (snd (decrypt_commitments_loop h us s)) = users s"
  by (induction us arbitrary: s) (auto split: option.splits sum.splits)

lemma decrypt_commitments_snd:
  "snd (decrypt_commitments h s) =
     snd (decrypt_commitments_loop h (users s) (s\<lparr>decrypted_commitments := []\<rparr>))"
  by (simp add: decrypt_commitments_def split: prod.splits sum.splits)

lemma cbc_reachable_roster:
  "cbc_reachable s \<Longrightarrow> length (decrypted_commitments s) \<le> length (users s)"
proof (induction rule: cbc_reachable.induct)
  case (decrypted s h)
  show ?case
    using dc_loop_length [of h "users s" "s\<lparr>decrypted_commitments := []\<rparr>"]
    by (simp add: decrypt_commitments_snd dc_loop_users)
qed (simp_all add: register_user_def select_top_M_def encrypt_winners_for_pbc_def Let_def)

lemma encrypt_winners_loop_iff:
  "encrypt_winners_loop pk ws acc = Inr r \<longleftrightarrow>
     (\<exists>r'. r = acc @ r' \<and> list_all2 (\<lambda>(u, c) (u', x). u' = u \<and> encrypt c pk = Inr x) ws r')"
proof (induction ws arbitrary: acc)
  case Nil
  then show ?case by auto
next
  case (Cons w ws)
  obtain u c where w: "w = (u, c)" by (cases w)
  show ?case
  proof (cases "encrypt c pk")
    case (Inl err)
    then show ?thesis by (auto simp: w list_all2_Cons1)
  next
    case (Inr x)
    then show ?thesis
      by (auto simp: w Cons.IH list_all2_Cons1)
  qed
qed

lemma encrypt_winners_loop_valid:
  "n \<noteq> 0 \<Longrightarrow> 0 \<le> e \<Longrightarrow>
   encrypt_winners_loop (e, n) ws acc = Inr (acc @ map (\<lambda>(u, c). (u, c ^ nat e mod n)) ws)"
  by (induction ws arbitrary: acc) (auto simp: encrypt_def pow3_nonneg)

subsection \<open>Fermat's little theorem and the RSA identity\<close>

lemma is_prime_dvd: "is_prime p \<Longrightarrow> d dvd p \<Longrightarrow> d = 1 \<or> d = p"
proof -
  assume p: "is_prime p" and d: "d dvd p"
  from p have "0 < p" by (simp add: is_prime_def)
  with d have "d \<le> p" "d \<noteq> 0" by (auto dest: dvd_imp_le)
  moreover from p d have "d \<notin> {2..<p}" by (auto simp: is_prime_def)
  ultimately show ?thesis by auto
qed

lemma is_prime_coprime: "is_prime p \<Longrightarrow> \<not> p dvd k \<Longrightarrow> coprime p k"
  by (rule coprimeI) (auto dest: is_prime_dvd)

lemma prime_dvd_choose:
  assumes "is_prime p" "0 < k" "k < p"
  shows "p dvd (p choose k)"
proof -
  obtain j where k: "k = Suc j" using assms(2) by (cases k) auto
  obtain n where p: "p = Suc n" using assms(3) by (cases p) auto
  have "\<not> p dvd k" using assms(2,3) by (auto dest: dvd_imp_le)
  with assms(1) have c: "coprime p k" by (rule is_prime_coprime)
  have "p dvd (p choose k) * k"
    unfolding k p using Suc_times_binomial_eq [of n j] by (metis dvd_triv_left)
  with c show ?thesis by (simp add: coprime_dvd_mult_left_iff)
qed

lemma freshman:
  assumes "is_prime p"
  shows "(a + 1) ^ p mod p = (a ^ p + 1) mod (p::nat)"
proof -
  from assms have "1 < p" by (simp add: is_prime_def)
  define n where "n = p - 2"
  with \<open>1 < p\<close> have p: "p = Suc (Suc n)" by simp
  define f where "f k = (p choose k) * a ^ k" for k
  have "(a + 1) ^ p = (\<Sum>k\<le>p. f k)"
    using binomial [of a 1 p] by (simp add: f_def)
  also have "\<dots> = (\<Sum>k\<le>Suc n. f k) + f p"
    by (simp add: p)
  also have "(\<Sum>k\<le>Suc n. f k) = f 0 + (\<Sum>k\<le>n. f (Suc k))"
    by (rule sum.atMost_Suc_shift)
  finally have e: "(a + 1) ^ p = (a ^ p + 1) + (\<Sum>k\<le>n. f (Suc k))"
    by (simp add: f_def)
  have "p dvd (\<Sum>k\<le>n. f (Suc k))"
  proof (rule dvd_sum)
    fix k assume "k \<in> {..n}"
    then have "0 < Suc k" "Suc k < p" by (simp_all add: p)
    with assms have "p dvd (p choose Suc k)" by (rule prime_dvd_choose)
    then show "p dvd f (Suc k)" by (simp add: f_def)
  qed
  then obtain t where "(\<Sum>k\<le>n. f (Suc k)) = p * t" by (auto simp: dvd_def)
  then show ?thesis unfolding e by simp
qed

lemma fermat:
  assumes "is_prime p"
  shows "a ^ p mod p = a mod (p::nat)"
proof (induction a)
  case 0
  from assms have "0 < p" by (simp add: is_prime_def)
  then show ?case by (simp add: power_0_left)
next
  case (Suc a)
  have "Suc a ^ p mod p = (a ^ p + 1) mod p"
    using freshman [OF assms, of a] by simp
  also have "\<dots> = (a ^ p mod p + 1) mod p"
    by (simp only: mod_add_left_eq)
  also have "\<dots> = (a mod p + 1) mod p"
    by (simp only: Suc.IH)
  also have "\<dots> = (a + 1) mod p"
    by (simp only: mod_add_left_eq)
  finally show ?case by simp
qed

lemma fermat_iter:
  assumes "is_prime p"
  shows "a ^ (1 + j * (p - 1)) mod p = a mod (p::nat)"
proof (induction j)
  case 0
  then show ?case by simp
next
  case (Suc j)
  from assms have p: "Suc (p - 1) = p" by (simp add: is_prime_def)
  have "1 + Suc j * (p - 1) = (1 + j * (p - 1)) + (p - 1)"
    by simp
  then have "a ^ (1 + Suc j * (p - 1)) = a ^ (1 + j * (p - 1)) * a ^ (p - 1)"
    by (simp only: power_add)
  then have "a ^ (1 + Suc j * (p - 1)) mod p = (a ^ (1 + j * (p - 1)) mod p) * a ^ (p - 1) mod p"
    by (simp only: mod_mult_left_eq)
  also have "\<dots> = (a mod p) * a ^ (p - 1) mod p"
    by (simp only: Suc.IH)
  also have "\<dots> = a * a ^ (p - 1) mod p"
    by (simp only: mod_mult_left_eq)
  also have "a * a ^ (p - 1) = a ^ p"
    using power_Suc [of a "p - 1"] by (simp only: p)
  finally show ?case by (simp add: fermat [OF assms])
qed

lemma rsa_core:
  assumes p: "is_prime p" and q: "is_prime q" and pq: "p \<noteq> q"
    and ed: "e * d mod ((p - 1) * (q - 1)) = 1" and m: "m < p * q"
  shows "m ^ (e * d) mod (p * q) = m"
proof -
  define x where "x = e * d"
  define k where "k = x div ((p - 1) * (q - 1))"
  have "x = k * ((p - 1) * (q - 1)) + x mod ((p - 1) * (q - 1))"
    unfolding k_def by (rule div_mult_mod_eq [symmetric])
  with ed have edk: "x = 1 + k * ((p - 1) * (q - 1))"
    by (simp add: x_def)
  have "x = 1 + (k * (q - 1)) * (p - 1)"
    by (simp add: edk mult_ac)
  then have mp: "m ^ x mod p = m mod p"
    using fermat_iter [OF p, of m "k * (q - 1)"] by simp
  have "x = 1 + (k * (p - 1)) * (q - 1)"
    by (simp add: edk mult_ac)
  then have mq: "m ^ x mod q = m mod q"
    using fermat_iter [OF q, of m "k * (p - 1)"] by simp
  have "1 \<le> x" using edk by simp
  then have le: "m \<le> m ^ x"
    by (cases "m = 0") (simp_all add: self_le_power)
  have dp: "p dvd m ^ x - m"
    using mp le by (simp add: mod_eq_dvd_iff_nat)
  have dq: "q dvd m ^ x - m"
    using mq le by (simp add: mod_eq_dvd_iff_nat)
  have "\<not> p dvd q" using is_prime_dvd [OF q, of p] p pq by (auto simp: is_prime_def)
  with p have "coprime p q" by (rule is_prime_coprime)
  with dp dq have "p * q dvd m ^ x - m" by (simp add: divides_mult)
  then have "m ^ x mod (p * q) = m mod (p * q)"
    using le by (simp add: mod_eq_dvd_iff_nat)
  with m show ?thesis by (simp add: x_def)
qed



subsection \<open>Extended Euclid and the modular inverse\<close>

lemma egcd_bezout: "egcd a b = (g, x, y) \<Longrightarrow> a * x + b * y = g"
proof (induction a b arbitrary: g x y rule: egcd.induct)
  case (1 a b)
  show ?case
  proof (cases "b = 0")
    case True
    with "1.prems" show ?thesis by (simp add: egcd.simps)
  next
    case False
    obtain g' x' y' where r: "egcd b (a mod b) = (g', x', y')"
      by (cases "egcd b (a mod b)") auto
    from "1.IH" [OF False r] have ih: "b * x' + (a mod b) * y' = g'" .
    have "egcd a b = (g', y', x' - (a div b) * y')"
      using r False by (simp add: egcd.simps [of a b])
    with "1.prems" have e: "g = g'" "x = y'" "y = x' - (a div b) * y'"
      by auto
    have "a * y' + b * (x' - (a div b) * y') = b * x' + (a - b * (a div b)) * y'"
      by (simp add: algebra_simps)
    also have "a - b * (a div b) = a mod b"
      by (simp add: minus_mult_div_eq_mod)
    finally show ?thesis using ih e by simp
  qed
qed


lemma mod_inverse_Some:
  assumes "0 < m" and "mod_inverse a m = Some d"
  shows "0 \<le> d \<and> d < m \<and> (a * d) mod m = 1 mod m"
proof -
  obtain g x y where r: "egcd (a mod m) m = (g, x, y)"
    by (cases "egcd (a mod m) m") auto
  with assms(2) have g: "g = 1" and d: "d = x mod m"
    by (auto simp: mod_inverse_def split: if_splits)
  from egcd_bezout [OF r] g have "(a mod m) * x = 1 - m * y" by simp
  then have "((a mod m) * x) mod m = (1 - m * y) mod m" by simp
  also have "\<dots> = 1 mod m"
    using mod_mult_self2 [of 1 m "- y"] by simp
  finally have "(a * x) mod m = 1 mod m"
    by (simp add: mod_mult_left_eq)
  then have "(a * d) mod m = 1 mod m"
    by (simp add: d mod_mult_right_eq)
  with assms(1) show ?thesis by (simp add: d)
qed


subsection \<open>Primality by trial division\<close>

lemma no_divisor_from_sound:
  "no_divisor_from d n \<Longrightarrow> d \<le> m \<Longrightarrow> m * m \<le> n \<Longrightarrow> \<not> m dvd n"
proof (induction d n rule: no_divisor_from.induct)
  case (1 d n)
  have dd: "d * d \<le> m * m" using "1.prems"(2) by (simp add: mult_le_mono)
  with "1.prems"(3) have le: "\<not> n < d * d" by simp
  with "1.prems"(1) have nd: "\<not> d dvd n" and rest: "no_divisor_from (Suc d) n"
    by (simp_all add: no_divisor_from.simps [of d n] split: if_splits)
  show ?case
  proof (cases "m = d")
    case True
    with nd show ?thesis by simp
  next
    case False
    with "1.prems"(2) have "Suc d \<le> m" by simp
    from "1.IH" [OF le nd rest this "1.prems"(3)] show ?thesis .
  qed
qed

lemma no_divisor_from_complete:
  "(\<And>m. d \<le> m \<Longrightarrow> m * m \<le> n \<Longrightarrow> \<not> m dvd n) \<Longrightarrow> no_divisor_from d n"
proof (induction d n rule: no_divisor_from.induct)
  case (1 d n)
  show ?case
  proof (cases "n < d * d")
    case True
    then show ?thesis by (simp add: no_divisor_from.simps [of d n])
  next
    case False
    then have nd: "\<not> d dvd n" using "1.prems" [of d] by simp
    have "no_divisor_from (Suc d) n"
      using False nd by (rule "1.IH") (simp add: "1.prems")
    with False nd show ?thesis by (simp add: no_divisor_from.simps [of d n])
  qed
qed

lemma is_prime_code: "is_prime n \<longleftrightarrow> 1 < n \<and> no_divisor_from 2 n"
proof
  assume p: "is_prime n"
  have "no_divisor_from 2 n"
  proof (rule no_divisor_from_complete)
    fix m :: nat assume m: "2 \<le> m" "m * m \<le> n"
    then have "m * 2 \<le> m * m" by (simp add: mult_le_mono)
    with m have "m < n" by linarith
    with m p show "\<not> m dvd n" by (simp add: is_prime_def)
  qed
  with p show "1 < n \<and> no_divisor_from 2 n" by (simp add: is_prime_def)
next
  assume a: "1 < n \<and> no_divisor_from 2 n"
  have "\<not> d dvd n" if d: "d \<in> {2..<n}" for d
  proof
    assume "d dvd n"
    then obtain j where n: "n = d * j" by (auto simp: dvd_def)
    with d have j: "2 \<le> j" by (cases j; cases "j - 1") auto
    show False
    proof (cases "d \<le> j")
      case True
      then have "d * d \<le> n" by (simp add: n)
      with a d have "\<not> d dvd n" by (auto dest: no_divisor_from_sound)
      with \<open>d dvd n\<close> show False by simp
    next
      case False
      then have "j * j \<le> n" by (simp add: n mult.commute [of d j])
      with a j have "\<not> j dvd n" by (auto dest: no_divisor_from_sound)
      then show False by (simp add: n)
    qed
  qed
  with a show "is_prime n" by (simp add: is_prime_def)
qed


lemma primes_in_8_15: "primes_in 8 15 = [11, 13]"
  by (simp add: primes_in_def is_prime_code no_divisor_from.simps)


lemma primes_in_128_255:
  "primes_in 128 255 = [131, 137, 139, 149, 151, 157, 163, 167, 173, 179, 181, 191, 193, 197,
     199, 211, 223, 227, 229, 233, 239, 241, 251]"
  by (simp add: primes_in_def is_prime_code no_divisor_from.simps)

subsection \<open>The searches of key generation\<close>

lemma randprime_prime: "randprime a b r = Inr x \<Longrightarrow> is_prime x \<and> a \<le> x \<and> x < b"
proof -
  assume r: "randprime a b r = Inr x"
  then have ne: "primes_in a b \<noteq> []"
    by (auto simp: randprime_def split: list.splits)
  with r have "x = primes_in a b ! (r mod length (primes_in a b))"
    by (auto simp: randprime_def split: list.splits)
  moreover have "r mod length (primes_in a b) < length (primes_in a b)"
    using ne by simp
  ultimately have "x \<in> set (primes_in a b)"
    by (simp only: nth_mem)
  then show ?thesis by (simp add: primes_in_def)
qed

lemma distinct_prime_loop_result:
  assumes "distinct_prime_loop rnd i lower upper p q = Some y"
  shows "\<forall>q' j. y = (Inr q', j) \<longrightarrow> q' \<noteq> p \<and> (q' = q \<or> is_prime q' \<and> lower \<le> q' \<and> q' < upper)"
proof (rule distinct_prime_loop.raw_induct
    [where P = "\<lambda>rnd i lower upper p q y.
       \<forall>q' j. y = (Inr q', j) \<longrightarrow> q' \<noteq> p \<and> (q' = q \<or> is_prime q' \<and> lower \<le> q' \<and> q' < upper)", OF _ assms])
  fix f rnd i lower upper p q y
  assume IH: "\<And>rnd i lower upper p q y. f rnd i lower upper p q = Some y \<Longrightarrow>
           \<forall>q' j. y = (Inr q', j) \<longrightarrow> q' \<noteq> p \<and> (q' = q \<or> is_prime q' \<and> lower \<le> q' \<and> q' < upper)"
    and body: "(if q = p then
        (case randprime lower upper (rnd i) of
           Inl err \<Rightarrow> Some (Inl err, Suc i)
         | Inr q' \<Rightarrow> f rnd (Suc i) lower upper p q')
      else Some (Inr q, i)) = Some y"
  show "\<forall>q' j. y = (Inr q', j) \<longrightarrow> q' \<noteq> p \<and> (q' = q \<or> is_prime q' \<and> lower \<le> q' \<and> q' < upper)"
  proof (cases "q = p")
    case False
    with body show ?thesis by auto
  next
    case True
    show ?thesis
    proof (cases "randprime lower upper (rnd i)")
      case (Inl err)
      with True body show ?thesis by auto
    next
      case (Inr x)
      with True body have "f rnd (Suc i) lower upper p x = Some y" by simp
      from IH [OF this] randprime_prime [OF Inr] show ?thesis by auto
    qed
  qed
qed



lemma pow3_inverse:
  assumes "pow3 a (- 1) m = Inr d" and "0 < m"
  shows "0 \<le> d \<and> d < m \<and> (a * d) mod m = 1 mod m"
proof -
  from assms obtain i where i: "mod_inverse a m = Some i" and d: "d = i ^ nat 1 mod m"
    by (auto simp: pow3_def split: option.splits)
  from mod_inverse_Some [OF assms(2) i] have "0 \<le> i" "i < m" "(a * i) mod m = 1 mod m"
    by simp_all
  moreover from this d have "d = i" by simp
  ultimately show ?thesis by simp
qed

lemma phi_ge_2:
  assumes "is_prime p" and "is_prime q" and "p \<noteq> q"
  shows "2 \<le> (p - 1) * (q - 1)"
proof -
  from assms have pq: "1 < p" "1 < q" by (simp_all add: is_prime_def)
  show ?thesis
  proof (cases "p < q")
    case True
    with pq have "1 \<le> p - 1" "2 \<le> q - 1" by simp_all
    then have "1 * 2 \<le> (p - 1) * (q - 1)" by (rule mult_le_mono)
    then show ?thesis by simp
  next
    case False
    with pq assms(3) have "2 \<le> p - 1" "1 \<le> q - 1" by simp_all
    then have "2 * 1 \<le> (p - 1) * (q - 1)" by (rule mult_le_mono)
    then show ?thesis by simp
  qed
qed

lemma rsa_int:
  assumes p: "is_prime p" and q: "is_prime q" and pq: "p \<noteq> q"
    and d: "0 \<le> d"
    and ed: "(int e * d) mod int ((p - 1) * (q - 1)) = 1 mod int ((p - 1) * (q - 1))"
    and m: "0 \<le> m" "m < int (p * q)"
  shows "(m ^ e mod int (p * q)) ^ nat d mod int (p * q) = m"
    and "(m ^ nat d mod int (p * q)) ^ e mod int (p * q) = m"
proof -
  define phi where "phi = (p - 1) * (q - 1)"
  have phi: "2 \<le> phi" unfolding phi_def using p q pq by (rule phi_ge_2)
  have ed2: "(int e * d) mod int phi = 1 mod int phi"
    using ed unfolding phi_def .
  have "int (e * nat d mod phi) = (int e * d) mod int phi"
    using d by (simp add: zmod_int)
  also have "\<dots> = 1 mod int phi"
    by (rule ed2)
  also have "\<dots> = 1"
    using phi by simp
  finally have "e * nat d mod phi = 1"
    by simp
  then have ed': "e * nat d mod ((p - 1) * (q - 1)) = 1"
    unfolding phi_def .
  from m have m': "nat m < p * q" by (simp add: nat_less_iff)
  have core: "nat m ^ (e * nat d) mod (p * q) = nat m"
    using p q pq ed' m' by (rule rsa_core)
  have "m ^ (e * nat d) mod int (p * q) = int (nat m ^ (e * nat d) mod (p * q))"
    using m by (simp add: zmod_int)
  with core m have main: "m ^ (e * nat d) mod int (p * q) = m" by simp
  have "(m ^ e mod int (p * q)) ^ nat d mod int (p * q) = (m ^ e) ^ nat d mod int (p * q)"
    by (simp only: power_mod)
  then show "(m ^ e mod int (p * q)) ^ nat d mod int (p * q) = m"
    using main by (simp add: power_mult)
  have "(m ^ nat d mod int (p * q)) ^ e mod int (p * q) = (m ^ nat d) ^ e mod int (p * q)"
    by (simp only: power_mod)
  then show "(m ^ nat d mod int (p * q)) ^ e mod int (p * q) = m"
    using main by (simp add: power_mult [symmetric] mult.commute)
qed

lemma generate_keys_Inr:
  assumes "generate_keys bit_length rnd = Some (Inr (pub, priv))"
  shows "\<exists>p q e d. is_prime p \<and> is_prime q \<and> p \<noteq> q
           \<and> pub = (int e, int (p * q)) \<and> priv = (d, int (p * q))
           \<and> pow3 (int e) (- 1) (int ((p - 1) * (q - 1))) = Inr d"
proof -
  define lower :: nat where "lower = 2 ^ (bit_length div 2 - 1)"
  define upper :: nat where "upper = 2 ^ (bit_length div 2) - 1"
  from assms obtain p where p: "randprime lower upper (rnd 0) = Inr p"
    by (cases "randprime lower upper (rnd 0)")
       (simp_all add: generate_keys_def lower_def upper_def)
  with assms obtain q i where q: "distinct_prime_loop rnd 1 lower upper p p = Some (Inr q, i)"
    by (cases "distinct_prime_loop rnd 1 lower upper p p")
       (auto simp: generate_keys_def lower_def upper_def split: sum.splits)
  with p assms obtain e j where
    e: "coprime_exponent_loop rnd i ((p - 1) * (q - 1)) 65537 = Some (Inr e, j)"
    by (cases "coprime_exponent_loop rnd i ((p - 1) * (q - 1)) 65537")
       (auto simp: generate_keys_def lower_def upper_def Let_def split: sum.splits)
  with p q assms obtain d where
    d: "pow3 (int e) (- 1) (int ((p - 1) * (q - 1))) = Inr d"
    and keys: "pub = (int e, int (p * q))" "priv = (d, int (p * q))"
    by (cases "pow3 (int e) (- 1) (int ((p - 1) * (q - 1)))")
       (auto simp: generate_keys_def lower_def upper_def Let_def)
  from randprime_prime [OF p] have "is_prime p" by simp
  moreover from distinct_prime_loop_result [OF q] have "q \<noteq> p" "is_prime q" by auto
  ultimately show ?thesis using d keys by blast
qed

lemma generate_keys_8_id: "generate_keys 8 id = Some (Inr ((65537, 143), (113, 143)))"
  by (simp add: generate_keys_def randprime_def primes_in_8_15
        distinct_prime_loop.simps coprime_exponent_loop.simps
        pow3_def mod_inverse_def egcd.simps)






subsection \<open>The two protocols on concrete populations\<close>

lemma generate_keys_16_id:
  "generate_keys 16 id = Some (Inr ((65537, 17947), (12113, 17947)))"
  by (simp add: generate_keys_def randprime_def primes_in_128_255
        distinct_prime_loop.simps coprime_exponent_loop.simps
        pow3_def mod_inverse_def egcd.simps)

lemma generate_keys_16_Suc:
  "generate_keys 16 Suc = Some (Inr ((65537, 19043), (6401, 19043)))"
  by (simp add: generate_keys_def randprime_def primes_in_128_255
        distinct_prime_loop.simps coprime_exponent_loop.simps
        pow3_def mod_inverse_def egcd.simps)

lemma ordinal_30_31:
  "map bidder_id (run_simple_auction
      [(''CBC_A'', [\<lparr>bidder_id = ''A'', bidder_bid_value = 30\<rparr>,
                   \<lparr>bidder_id = ''B'', bidder_bid_value = 31\<rparr>])] 1) = [''B'']"
  by (simp add: run_simple_auction_def collect_winners_def child_select_top_M_def
        determine_global_winners_def sorted_desc_def slice_to_def)

lemma enc_a: "encrypt 1073741824 (65537, 17947) = Inr 8182"
  by (simp add: encrypt_def pow3_eval modexp.simps)

lemma enc_b: "encrypt 1 (65537, 17947) = Inr 1"
  by (simp add: encrypt_def pow3_eval modexp.simps)

lemma dec_a: "decrypt 8182 (12113, 17947) = Inr 8708"
  by (simp add: decrypt_def pow3_eval modexp.simps)

lemma dec_b: "decrypt 1 (12113, 17947) = Inr 1"
  by (simp add: decrypt_def pow3_eval modexp.simps)

lemma enc_p: "encrypt 8708 (65537, 19043) = Inr 9415"
  by (simp add: encrypt_def pow3_eval modexp.simps)

lemma dec_p: "decrypt 9415 (6401, 19043) = Inr 8708"
  by (simp add: decrypt_def pow3_eval modexp.simps)

lemma commit_a:
  "create_commitment \<lparr>user_id = ''A'', bid_value = 30, commitment = None,
      encrypted_commitment = None\<rparr> 2 None
   = (Inr 1073741824, \<lparr>user_id = ''A'', bid_value = 30, commitment = Some 1073741824,
      encrypted_commitment = None\<rparr>)"
  by (simp add: create_commitment_def max_safe_bid_def pow3_def)

lemma commit_b:
  "create_commitment \<lparr>user_id = ''B'', bid_value = 31, commitment = None,
      encrypted_commitment = None\<rparr> 2 None
   = (Inr 1, \<lparr>user_id = ''B'', bid_value = 31, commitment = Some 1,
      encrypted_commitment = None\<rparr>)"
  by (simp add: create_commitment_def max_safe_bid_def pow3_def)

lemma bidding_30_31:
  "bidding_phase 2 (65537, 17947)
     ((\<lambda>r. User_init [] 0)(0 := User_init ''A'' 30, Suc 0 := User_init ''B'' 31)) [0, Suc 0]
   = Inr ((\<lambda>r. User_init [] 0)
       (0 := \<lparr>user_id = ''A'', bid_value = 30, commitment = Some 1073741824,
               encrypted_commitment = Some 8182\<rparr>,
        Suc 0 := \<lparr>user_id = ''B'', bid_value = 31, commitment = Some 1,
               encrypted_commitment = Some 1\<rparr>))"
  by (simp add: User_init_def commit_a commit_b encrypt_commitment_def enc_a enc_b fun_upd_twist)

lemma cbc_round_30_31:
  "cbc_round 2 1 (\<lambda>r. User_init [] 0, 0, PBCVerifier_init ((65537, 19043), (6401, 19043)))
     (''CBC_A'', ((65537, 17947), (12113, 17947)), [(''A'', 30), (''B'', 31)])
   = Inr ((\<lambda>r. User_init [] 0)
       (0 := \<lparr>user_id = ''A'', bid_value = 30, commitment = Some 1073741824,
               encrypted_commitment = Some 8182\<rparr>,
        Suc 0 := \<lparr>user_id = ''B'', bid_value = 31, commitment = Some 1,
               encrypted_commitment = Some 1\<rparr>),
      2,
      (PBCVerifier_init ((65537, 19043), (6401, 19043)))\<lparr>all_encrypted_winners := [(0, 9415)]\<rparr>)"
  by (simp add: cbc_round_def Let_def CBCVerifier_init_def register_user_def User_init_def
      commit_a commit_b encrypt_commitment_def enc_a enc_b
      decrypt_commitments_def dec_a dec_b select_top_M_def sorted_desc_def slice_to_def
      encrypt_winners_for_pbc_def enc_p collect_encrypted_winners_def PBCVerifier_init_def)

lemma committed_30_31:
  "run_auction ((65537, 19043), (6401, 19043))
      [(''CBC_A'', ((65537, 17947), (12113, 17947)), [(''A'', 30), (''B'', 31)])] 1
     = Inr [(''A'', 8708)]"
  by (simp add: run_auction_def vc_keygen_def cbc_round_30_31)
     (simp add: PBCVerifier_init_def decrypt_all_commitments_def dec_p
        select_final_winners_def sorted_desc_def slice_to_def Let_def)

lemma enc_c: "encrypt 65536 (65537, 17947) = Inr 3048"
  by (simp add: encrypt_def pow3_eval modexp.simps)

lemma enc_d: "encrypt 131072 (65537, 17947) = Inr 7498"
  by (simp add: encrypt_def pow3_eval modexp.simps)

lemma dec_c: "decrypt 3048 (12113, 17947) = Inr 11695"
  by (simp add: decrypt_def pow3_eval modexp.simps)

lemma dec_d: "decrypt 7498 (12113, 17947) = Inr 5443"
  by (simp add: decrypt_def pow3_eval modexp.simps)

lemma enc_q: "encrypt 11695 (65537, 19043) = Inr 17981"
  by (simp add: encrypt_def pow3_eval modexp.simps)

lemma dec_q: "decrypt 17981 (6401, 19043) = Inr 11695"
  by (simp add: decrypt_def pow3_eval modexp.simps)

lemma commit_c:
  "create_commitment \<lparr>user_id = ''A'', bid_value = 16, commitment = None,
      encrypted_commitment = None\<rparr> 2 None
   = (Inr 65536, \<lparr>user_id = ''A'', bid_value = 16, commitment = Some 65536,
      encrypted_commitment = None\<rparr>)"
  by (simp add: create_commitment_def max_safe_bid_def pow3_def)

lemma commit_d:
  "create_commitment \<lparr>user_id = ''B'', bid_value = 17, commitment = None,
      encrypted_commitment = None\<rparr> 2 None
   = (Inr 131072, \<lparr>user_id = ''B'', bid_value = 17, commitment = Some 131072,
      encrypted_commitment = None\<rparr>)"
  by (simp add: create_commitment_def max_safe_bid_def pow3_def)

lemma cbc_round_16_17:
  "cbc_round 2 1 (\<lambda>r. User_init [] 0, 0, PBCVerifier_init ((65537, 19043), (6401, 19043)))
     (''CBC_A'', ((65537, 17947), (12113, 17947)), [(''A'', 16), (''B'', 17)])
   = Inr ((\<lambda>r. User_init [] 0)
       (0 := \<lparr>user_id = ''A'', bid_value = 16, commitment = Some 65536,
               encrypted_commitment = Some 3048\<rparr>,
        Suc 0 := \<lparr>user_id = ''B'', bid_value = 17, commitment = Some 131072,
               encrypted_commitment = Some 7498\<rparr>),
      2,
      (PBCVerifier_init ((65537, 19043), (6401, 19043)))\<lparr>all_encrypted_winners := [(0, 17981)]\<rparr>)"
  by (simp add: cbc_round_def Let_def CBCVerifier_init_def register_user_def User_init_def
      commit_c commit_d encrypt_commitment_def enc_c enc_d
      decrypt_commitments_def dec_c dec_d select_top_M_def sorted_desc_def slice_to_def
      encrypt_winners_for_pbc_def enc_q collect_encrypted_winners_def PBCVerifier_init_def)

lemma committed_16_17:
  "run_auction ((65537, 19043), (6401, 19043))
      [(''CBC_A'', ((65537, 17947), (12113, 17947)), [(''A'', 16), (''B'', 17)])] 1
     = Inr [(''A'', 11695)]"
  by (simp add: run_auction_def vc_keygen_def cbc_round_16_17)
     (simp add: PBCVerifier_init_def decrypt_all_commitments_def dec_q
        select_final_winners_def sorted_desc_def slice_to_def Let_def)

lemma ordinal_16_17:
  "map bidder_id (run_simple_auction
      [(''CBC_A'', [\<lparr>bidder_id = ''A'', bidder_bid_value = 16\<rparr>,
                    \<lparr>bidder_id = ''B'', bidder_bid_value = 17\<rparr>])] 1) = [''B'']"
  by (simp add: run_simple_auction_def collect_winners_def child_select_top_M_def
        determine_global_winners_def sorted_desc_def slice_to_def)

section \<open>Claims\<close>



text \<open>
  C6.  When the final winners \<open>[(u\<^sub>1, c\<^sub>1), \<dots>, (u\<^sub>k, c\<^sub>k)]\<close> and the blinding coefficients
  \<open>[r\<^sub>1, \<dots>]\<close> are both populated, there are at least as many coefficients as winners,
  and the modulus \<open>p\<close> is not zero, \<^verbatim>\<open>compute_vector_commitment(p)\<close> returns the product
  \<open>c\<^sub>1 ^ r\<^sub>1 * \<dots> * c\<^sub>k ^ r\<^sub>k mod p\<close>, the \<open>i\<close>-th winner paired with the \<open>i\<close>-th
  coefficient, and stores it as the vector commitment, changing nothing else.
\<close>

theorem compute_vector_commitment_product:
  assumes "final_winners s \<noteq> []" and "random_values s \<noteq> []"
    and "length (final_winners s) \<le> length (random_values s)" and "p \<noteq> 0"
  shows "compute_vector_commitment s p =
    (let v = prod_list (map (\<lambda>((u, c), r). c ^ r) (zip (final_winners s) (random_values s))) mod p
     in (Inr v, s\<lparr>vector_commitment := Some v\<rparr>))"
  using assms by (rule cvc_complete)

theorem compute_vector_commitment_product_witness:
  "compute_vector_commitment
     \<lparr>pubkey = (5, 21), privkey = (5, 21), all_encrypted_winners = [],
      all_decrypted_commitments = [], final_winners = [(0, 3), (1, 5)],
      random_values = [2, 1, 7], vector_commitment = None\<rparr> 7
   = (Inr 3,
      \<lparr>pubkey = (5, 21), privkey = (5, 21), all_encrypted_winners = [],
       all_decrypted_commitments = [], final_winners = [(0, 3), (1, 5)],
       random_values = [2, 1, 7], vector_commitment = Some 3\<rparr>)"
  using compute_vector_commitment_product
    [of "\<lparr>pubkey = (5, 21), privkey = (5, 21), all_encrypted_winners = [],
          all_decrypted_commitments = [], final_winners = [(0, 3), (1, 5)],
          random_values = [2, 1, 7], vector_commitment = None\<rparr>" 7]
  by simp

text \<open>
  C7.  Whenever the final winners or the blinding coefficients are empty (so in
  particular before \<^verbatim>\<open>generate_random_values\<close> or \<^verbatim>\<open>select_final_winners\<close> has
  populated them), \<^verbatim>\<open>compute_vector_commitment\<close> raises the missing-inputs error and
  leaves the verifier, and so the stored vector commitment, unchanged.
\<close>

theorem compute_vector_commitment_missing:
  "final_winners s = [] \<or> random_values s = [] \<Longrightarrow>
   compute_vector_commitment s p = (Inl MissingInputs, s)"
  by (auto simp: compute_vector_commitment_def)

theorem compute_vector_commitment_missing_witness:
  "compute_vector_commitment
     \<lparr>pubkey = (5, 21), privkey = (5, 21), all_encrypted_winners = [],
      all_decrypted_commitments = [], final_winners = [(0, 3)],
      random_values = [], vector_commitment = Some 4\<rparr> 7
   = (Inl MissingInputs,
      \<lparr>pubkey = (5, 21), privkey = (5, 21), all_encrypted_winners = [],
       all_decrypted_commitments = [], final_winners = [(0, 3)],
       random_values = [], vector_commitment = Some 4\<rparr>)"
  using compute_vector_commitment_missing
    [of "\<lparr>pubkey = (5, 21), privkey = (5, 21), all_encrypted_winners = [],
          all_decrypted_commitments = [], final_winners = [(0, 3)],
          random_values = [], vector_commitment = Some 4\<rparr>" 7]
  by simp

text \<open>
  C10.  The emptiness guard does not make the coefficient lookup safe.  With both
  sequences non-empty and a non-zero modulus, \<^verbatim>\<open>compute_vector_commitment\<close> returns a
  value exactly when there are at least as many blinding coefficients as final winners;
  with fewer coefficients than winners it faults on an out-of-range index, and that
  fault is not the missing-inputs error.
\<close>

theorem compute_vector_commitment_index:
  assumes "final_winners s \<noteq> []" and "random_values s \<noteq> []" and "p \<noteq> 0"
  shows "((\<exists>v. fst (compute_vector_commitment s p) = Inr v)
            \<longleftrightarrow> length (final_winners s) \<le> length (random_values s))
       \<and> (fst (compute_vector_commitment s p) = Inl IndexError
            \<longleftrightarrow> length (random_values s) < length (final_winners s))
       \<and> fst (compute_vector_commitment s p) \<noteq> Inl MissingInputs"
proof (cases "length (final_winners s) \<le> length (random_values s)")
  case True
  from cvc_complete [OF assms(1,2) True assms(3)]
  show ?thesis using True by (simp add: Let_def)
next
  case False
  then have "fst (compute_vector_commitment s p) = Inl IndexError"
    using assms by (simp add: compute_vector_commitment_def cvc_loop_index_fault)
  then show ?thesis using False by simp
qed

theorem compute_vector_commitment_index_witness:
  "fst (compute_vector_commitment
     \<lparr>pubkey = (5, 21), privkey = (5, 21), all_encrypted_winners = [],
      all_decrypted_commitments = [], final_winners = [(0, 3), (1, 5)],
      random_values = [2], vector_commitment = None\<rparr> 7) = Inl IndexError"
  using compute_vector_commitment_index
    [of "\<lparr>pubkey = (5, 21), privkey = (5, 21), all_encrypted_winners = [],
          all_decrypted_commitments = [], final_winners = [(0, 3), (1, 5)],
          random_values = [2], vector_commitment = None\<rparr>" 7]
  by simp

text \<open>
  C4.  For every \<^verbatim>\<open>CBCVerifier\<close> state and every \<open>M \<ge> 0\<close>, \<^verbatim>\<open>select_top_M(M)\<close> returns
  (and stores as the top winners) the first \<open>min M count\<close> entries of the decrypted
  commitments sorted descending by value, where the sorted sequence is a rearrangement
  of the decrypted commitments in which entries of equal value keep their arrival
  order.  In every state the verifier can reach, the result has at most
  \<open>min M (number of registered users)\<close> entries, and \<^verbatim>\<open>select_final_winners(M)\<close> of the
  parent verifier returns at most \<open>M\<close> entries.
\<close>

theorem select_top_M_spec:
  assumes "0 \<le> M"
  shows "(let ds = decrypted_commitments s;
              sorted_all = sorted_desc snd ds;
              ws = fst (select_top_M s M)
          in sorted_wrt (\<lambda>a b. snd b \<le> snd a) sorted_all
           \<and> mset sorted_all = mset ds
           \<and> (\<forall>v. filter (\<lambda>x. snd x = v) sorted_all = filter (\<lambda>x. snd x = v) ds)
           \<and> ws = take (min (nat M) (length ds)) sorted_all
           \<and> snd (select_top_M s M) = s\<lparr>top_M_winners := ws\<rparr>
           \<and> length ws = min (nat M) (length ds)
           \<and> (cbc_reachable s \<longrightarrow> length ws \<le> min (nat M) (length (users s))))
       \<and> length (fst (select_final_winners t M)) \<le> nat M"
proof -
  have a: "fst (select_top_M s M) = take (nat M) (sorted_desc snd (decrypted_commitments s))"
    using assms by (simp add: select_top_M_def slice_to_def Let_def)
  have b: "take (nat M) (sorted_desc snd (decrypted_commitments s))
             = take (min (nat M) (length (decrypted_commitments s)))
                 (sorted_desc snd (decrypted_commitments s))"
    by (simp add: min_def length_sorted_desc)
  have c: "snd (select_top_M s M) = s\<lparr>top_M_winners := fst (select_top_M s M)\<rparr>"
    by (simp add: select_top_M_def Let_def)
  have d: "length (fst (select_top_M s M)) = min (nat M) (length (decrypted_commitments s))"
    by (simp add: a length_sorted_desc)
  have e: "cbc_reachable s \<Longrightarrow> length (fst (select_top_M s M)) \<le> min (nat M) (length (users s))"
    using d cbc_reachable_roster [of s] by simp
  have f: "length (fst (select_final_winners t M)) \<le> nat M"
    using assms by (simp add: select_final_winners_def slice_to_def Let_def)
  show ?thesis
    unfolding Let_def
    using a b c d e f descending_sorted_desc [of snd "decrypted_commitments s"]
      mset_sorted_desc [of snd "decrypted_commitments s"]
      stable_sorted_desc [of snd _ "decrypted_commitments s"]
    by (intro conjI allI impI) simp_all
qed

theorem select_top_M_spec_witness:
  "cbc_reachable
     (snd (decrypt_commitments
        (\<lambda>r. \<lparr>user_id = ''u'', bid_value = 0, commitment = None,
               encrypted_commitment = Some (if r = 1 then 3 else 26)\<rparr>)
        (register_user (register_user (register_user
           \<lparr>pubkey = (3, 33), privkey = (7, 33), cbc_id = ''CBC_A'', users = [],
            decrypted_commitments = [], top_M_winners = []\<rparr> 0) 1) 2)))
   \<and> fst (select_top_M
     (snd (decrypt_commitments
        (\<lambda>r. \<lparr>user_id = ''u'', bid_value = 0, commitment = None,
               encrypted_commitment = Some (if r = 1 then 3 else 26)\<rparr>)
        (register_user (register_user (register_user
           \<lparr>pubkey = (3, 33), privkey = (7, 33), cbc_id = ''CBC_A'', users = [],
            decrypted_commitments = [], top_M_winners = []\<rparr> 0) 1) 2))) 2)
     = [(1, 9), (0, 5) ]
   \<and> length (fst (select_top_M
     (snd (decrypt_commitments
        (\<lambda>r. \<lparr>user_id = ''u'', bid_value = 0, commitment = None,
               encrypted_commitment = Some (if r = 1 then 3 else 26)\<rparr>)
        (register_user (register_user (register_user
           \<lparr>pubkey = (3, 33), privkey = (7, 33), cbc_id = ''CBC_A'', users = [],
            decrypted_commitments = [], top_M_winners = []\<rparr> 0) 1) 2))) 2)) \<le> 2"
proof -
  let ?s = "snd (decrypt_commitments
        (\<lambda>r. \<lparr>user_id = ''u'', bid_value = 0, commitment = None,
               encrypted_commitment = Some (if r = 1 then 3 else 26)\<rparr>)
        (register_user (register_user (register_user
           \<lparr>pubkey = (3, 33), privkey = (7, 33), cbc_id = ''CBC_A'', users = [],
            decrypted_commitments = [], top_M_winners = []\<rparr> 0) 1) 2))"
  have r: "cbc_reachable ?s"
    by (intro cbc_reachable.intros)
  have ds: "decrypted_commitments ?s = [(0, 5), (1, 9), (2, 5)]"
    by (simp add: decrypt_commitments_def register_user_def decrypt_def pow3_def)
  have m: "(0::int) \<le> 2" by simp
  from select_top_M_spec [OF m, of ?s] r have
    t: "fst (select_top_M ?s 2) = take (min (nat 2) (length (decrypted_commitments ?s)))
        (sorted_desc snd (decrypted_commitments ?s))"
    and l: "length (fst (select_top_M ?s 2)) \<le> min (nat 2) (length (users ?s))"
    unfolding Let_def by blast+
  from t have "fst (select_top_M ?s 2) = [(1, 9), (0, 5)]"
    unfolding ds by (simp add: sorted_desc_def)
  moreover from l have "length (fst (select_top_M ?s 2)) \<le> 2"
    by simp
  ultimately show ?thesis using r by blast
qed

text \<open>
  C9.  \<^verbatim>\<open>encrypt_winners_for_pbc(pbc_pubkey)\<close> leaves the verifier, and so its top
  winners, unchanged.  It returns a sequence exactly when that sequence pairs, in the
  order of the top winners, each user with the encryption of its decrypted value under
  the parent's public key; for a public key \<open>(e, n)\<close> with \<open>n \<noteq> 0\<close> and \<open>e \<ge> 0\<close> it always
  returns it, the encryption being \<open>value ^ e mod n\<close>.
\<close>

theorem encrypt_winners_for_pbc_spec:
  "snd (encrypt_winners_for_pbc s pk) = s
   \<and> (fst (encrypt_winners_for_pbc s pk) = Inr ws \<longleftrightarrow>
        list_all2 (\<lambda>(u, c) (u', x). u' = u \<and> encrypt c pk = Inr x) (top_M_winners s) ws)
   \<and> (snd pk \<noteq> 0 \<and> 0 \<le> fst pk \<longrightarrow>
        fst (encrypt_winners_for_pbc s pk)
          = Inr (map (\<lambda>(u, c). (u, c ^ nat (fst pk) mod snd pk)) (top_M_winners s)))"
proof -
  obtain e n where pk: "pk = (e, n)" by (cases pk)
  show ?thesis
    by (simp add: encrypt_winners_for_pbc_def encrypt_winners_loop_iff pk
        encrypt_winners_loop_valid)
qed

theorem encrypt_winners_for_pbc_spec_witness:
  "encrypt_winners_for_pbc
     \<lparr>pubkey = (3, 33), privkey = (7, 33), cbc_id = ''CBC_A'', users = [0, 1, 2],
      decrypted_commitments = [(0, 5), (1, 9), (2, 5)], top_M_winners = [(1, 9), (0, 5)]\<rparr> (3, 55)
   = (Inr [(1, 14), (0, 15)],
      \<lparr>pubkey = (3, 33), privkey = (7, 33), cbc_id = ''CBC_A'', users = [0, 1, 2],
      decrypted_commitments = [(0, 5), (1, 9), (2, 5)], top_M_winners = [(1, 9), (0, 5)]\<rparr>)"
  using encrypt_winners_for_pbc_spec
    [of "\<lparr>pubkey = (3, 33), privkey = (7, 33), cbc_id = ''CBC_A'', users = [0, 1, 2],
      decrypted_commitments = [(0, 5), (1, 9), (2, 5)], top_M_winners = [(1, 9), (0, 5)]\<rparr>"
      "(3, 55)" "[(1, 14), (0, 15)]"]
  by (simp add: prod_eq_iff)

text \<open>
  C3.  For every key pair \<open>((e, n), (d, n))\<close> that \<^verbatim>\<open>generate_keys\<close> returns, at any bit
  length and for any random choices, and every \<open>m\<close> with \<open>0 \<le> m < n\<close>: encrypting \<open>m\<close>
  with the public key and decrypting the result with the private key gives \<open>m\<close> back,
  and so does decrypting \<open>m\<close> first and encrypting the result.
\<close>

theorem rsa_round_trip:
  assumes "generate_keys bit_length rnd = Some (Inr (pub, priv))"
    and "0 \<le> m" and "m < snd pub"
  shows "(\<exists>c. encrypt m pub = Inr c \<and> decrypt c priv = Inr m)
       \<and> (\<exists>x. decrypt m priv = Inr x \<and> encrypt x pub = Inr m)"
proof -
  from generate_keys_Inr [OF assms(1)] obtain p q e d where
    p: "is_prime p" and q: "is_prime q" and pq: "p \<noteq> q"
    and pub: "pub = (int e, int (p * q))" and priv: "priv = (d, int (p * q))"
    and inv: "pow3 (int e) (- 1) (int ((p - 1) * (q - 1))) = Inr d"
    by blast
  from phi_ge_2 [OF p q pq] have "0 < (p - 1) * (q - 1)" by linarith
  then have "0 < int ((p - 1) * (q - 1))" by (simp only: of_nat_0_less_iff)
  from pow3_inverse [OF inv this] have d: "0 \<le> d"
    and ed: "(int e * d) mod int ((p - 1) * (q - 1)) = 1 mod int ((p - 1) * (q - 1))"
    by simp_all
  from assms(3) have m: "m < int (p * q)" by (simp add: pub)
  from p q have n: "int (p * q) \<noteq> 0" by (simp add: is_prime_def)
  note rt = rsa_int [OF p q pq d ed assms(2) m]
  have enc: "encrypt x pub = Inr (x ^ e mod int (p * q))" for x
    using n by (simp add: encrypt_def pub pow3_def)
  have dec: "decrypt x priv = Inr (x ^ nat d mod int (p * q))" for x
    using n d by (simp add: decrypt_def priv pow3_def)
  have a: "decrypt (m ^ e mod int (p * q)) priv = Inr m"
    by (simp only: dec rt(1))
  have b: "encrypt (m ^ nat d mod int (p * q)) pub = Inr m"
    by (simp only: enc rt(2))
  show ?thesis
    using enc [of m] dec [of m] a b by blast
qed

theorem rsa_round_trip_witness:
  "generate_keys 8 id = Some (Inr ((65537, 143), (113, 143)))
   \<and> (\<exists>c. encrypt 42 (65537, 143) = Inr c \<and> decrypt c (113, 143) = Inr 42)
   \<and> (\<exists>x. decrypt 42 (113, 143) = Inr x \<and> encrypt x (65537, 143) = Inr 42)"
  using rsa_round_trip [OF generate_keys_8_id, of 42] generate_keys_8_id
  by simp




text \<open>
  C2.  With the generator 2 of \<^verbatim>\<open>vc_keygen\<close>, the default modulus \<open>2 ^ 31 - 1\<close> and bids
  within the safe maximum 1000, the commitment is not increasing: the bid 31 commits to
  1, the smaller bid 30 to \<open>2 ^ 30\<close>.  The code's own \<^verbatim>\<open>verify_commitment_ordering\<close>
  reports the loss of order for these parameters.
\<close>

theorem commitment_order_broken:
  "fst (create_commitment (User_init ''A'' 31) (vc_keygen 1 100) None) = Inr 1
   \<and> fst (create_commitment (User_init ''B'' 30) (vc_keygen 1 100) None) = Inr 1073741824
   \<and> verify_commitment_ordering (vc_keygen 1 100) (2 ^ 31 - 1) 1000 = Inr False"
  by (simp add: create_commitment_def User_init_def vc_keygen_def max_safe_bid_def pow3_def
      verify_commitment_ordering_def)

text \<open>
  C1.  The two protocols do not always select the same bidders.  With 16-bit keys that
  \<^verbatim>\<open>generate_keys\<close> returns, one child chain and \<open>M = 1\<close>: for the bids 30 and 31 the
  baseline selects the bidder of 31 and the committed protocol the bidder of 30 (the
  commitment \<open>2 ^ 31 mod (2 ^ 31 - 1)\<close> is 1); for the bids 16 and 17 the baseline
  selects the bidder of 17 and the committed protocol the bidder of 16 (the commitments
  \<open>2 ^ 16\<close> and \<open>2 ^ 17\<close> exceed the verifier's modulus 17947 and come back from
  decryption as 11695 and 5443).
\<close>

theorem protocols_disagree:
  "generate_keys 16 id = Some (Inr ((65537, 17947), (12113, 17947)))
   \<and> generate_keys 16 Suc = Some (Inr ((65537, 19043), (6401, 19043)))
   \<and> map bidder_id (run_simple_auction
        [(''CBC_A'', [\<lparr>bidder_id = ''A'', bidder_bid_value = 30\<rparr>,
                      \<lparr>bidder_id = ''B'', bidder_bid_value = 31\<rparr>])] 1) = [''B'']
   \<and> run_auction ((65537, 19043), (6401, 19043))
        [(''CBC_A'', ((65537, 17947), (12113, 17947)), [(''A'', 30), (''B'', 31)])] 1
       = Inr [(''A'', 8708)]
   \<and> map bidder_id (run_simple_auction
        [(''CBC_A'', [\<lparr>bidder_id = ''A'', bidder_bid_value = 16\<rparr>,
                      \<lparr>bidder_id = ''B'', bidder_bid_value = 17\<rparr>])] 1) = [''B'']
   \<and> run_auction ((65537, 19043), (6401, 19043))
        [(''CBC_A'', ((65537, 17947), (12113, 17947)), [(''A'', 16), (''B'', 17)])] 1
       = Inr [(''A'', 11695)]"
  by (intro conjI generate_keys_16_id generate_keys_16_Suc ordinal_30_31 committed_30_31
      ordinal_16_17 committed_16_17)

end
